theory Spec2Isabelle
  imports Main
begin

section \<open>Runtime argument derivation of devito (devito/arguments.py)\<close>

text \<open>
  The module represents the runtime arguments of an operator and their relationships
  as a graph: every node is a \<open>Parameter\<close>, every edge a \<open>Dependency\<close> stored on its
  source node. The embedding follows the Python classes one to one. Python objects are
  compared by identity; the model compares nodes structurally, which agrees with identity
  as long as distinct nodes differ in their names or dependencies.
\<close>

subsection \<open>Errors, providers and nodes\<close>

datatype error =
    InvalidArgument string
  | TypeError
  | AssertionError
  | KeyError
  | AttributeError
  | IndexError

text \<open>Plain Python data as it is stored on providers or passed by the caller:
  \<open>None\<close>, an integer, or an array, of which only the shape is kept.\<close>

datatype literal = LNone | LInt int | LArray "nat list"

text \<open>\<open>devito/dimension.py\<close>: a dimension is identified by its name; the names of
  its three scalar arguments are derived from it.\<close>

datatype dimension = Dimension (dim_name: string)

definition size_name :: "dimension \<Rightarrow> string" where
  "size_name d = dim_name d @ ''_size''"

definition start_name :: "dimension \<Rightarrow> string" where
  "start_name d = dim_name d @ ''_s''"

definition end_name :: "dimension \<Rightarrow> string" where
  "end_name d = dim_name d @ ''_e''"

text \<open>The value of a tiling descriptor: absent, a fixed tile size (calling it raises
  \<open>TypeError\<close>), or a function of the dimension extent.\<close>

datatype dle_value = NoValue | FixedValue int | SizingFunction "int \<Rightarrow> int"

record dle_argument =
  argument :: dimension
  original_dim :: dimension
  dle_value :: dle_value

text \<open>Provider objects, by the class the value visitor dispatches on: a \<open>Function\<close>
  and a \<open>Constant\<close> carry \<open>data\<close>, an \<open>Object\<close> carries \<open>value\<close>.\<close>

datatype provider =
    Function (provider_name: string) (provider_data: literal)
  | Constant (provider_name: string) (provider_data: literal)
  | Object (provider_name: string) (provider_data: literal)

datatype dep_type = gets_value_from | verified_by

datatype param = PNone | PIndex nat | PDle dle_argument

text \<open>The target (\<open>obj\<close>) of a dependency is a provider, the free function
  \<open>derive_dle_argument_value\<close>, a verification predicate (opaque, named by a number),
  any other Python object, or another node of the graph.\<close>

datatype node =
    DimensionParameter dimension "dependency list"
  | ScalarArgument string "dependency list"
  | TensorArgument provider "dependency list"
  | PtrArgument provider
and dependency = Dependency (dependency_type: dep_type) (obj: target) (param: param)
and target =
    Provider provider
  | derive_dle_argument_value_fn
  | Predicate nat
  | PyObject literal
  | Node node

text \<open>\<open>Parameter.name\<close> and \<open>Parameter.dependencies\<close>. The constructors of
  \<open>TensorArgument\<close> and \<open>PtrArgument\<close> append the dependency on their provider.\<close>

fun name :: "node \<Rightarrow> string" where
  "name (DimensionParameter d ds) = dim_name d"
| "name (ScalarArgument n ds) = n"
| "name (TensorArgument p ds) = provider_name p"
| "name (PtrArgument p) = provider_name p"

fun dependencies :: "node \<Rightarrow> dependency list" where
  "dependencies (DimensionParameter d ds) = ds"
| "dependencies (ScalarArgument n ds) = ds"
| "dependencies (TensorArgument p ds) = ds @ [Dependency gets_value_from (Provider p) PNone]"
| "dependencies (PtrArgument p) = [Dependency gets_value_from (Provider p) PNone]"

definition gets_value_from_deps :: "node \<Rightarrow> dependency list" where
  "gets_value_from_deps n = filter (\<lambda>x. dependency_type x = gets_value_from) (dependencies n)"

definition verified_by_deps :: "node \<Rightarrow> dependency list" where
  "verified_by_deps n = filter (\<lambda>x. dependency_type x = verified_by) (dependencies n)"

fun is_Argument :: "node \<Rightarrow> bool" where
  "is_Argument (DimensionParameter d ds) = False"
| "is_Argument _ = True"

fun is_DimensionParameter :: "node \<Rightarrow> bool" where
  "is_DimensionParameter (DimensionParameter d ds) = True"
| "is_DimensionParameter _ = False"

fun is_TensorArgument :: "node \<Rightarrow> bool" where
  "is_TensorArgument (TensorArgument p ds) = True"
| "is_TensorArgument _ = False"

text \<open>\<open>DimensionParameter.provider\<close>; only dimension nodes have the attribute.\<close>

fun dim_provider :: "node \<Rightarrow> dimension" where
  "dim_provider (DimensionParameter d ds) = d"

subsection \<open>Graph construction: the argument visitor\<close>

text \<open>\<open>ArgumentVisitor.visit_DimensionParameter\<close>: one dependency object on the
  visited node, shared by the three scalar arguments it returns.\<close>

definition ArgumentVisitor_visit_DimensionParameter :: "node \<Rightarrow> node list" where
  "ArgumentVisitor_visit_DimensionParameter o' =
     (let dependency = Dependency gets_value_from (Node o') PNone;
          size = ScalarArgument (size_name (dim_provider o')) [dependency];
          start = ScalarArgument (start_name (dim_provider o')) [dependency];
          end = ScalarArgument (end_name (dim_provider o')) [dependency]
      in [size, start, end])"

text \<open>The loop of \<open>_build_argument_mapper\<close> that passes the dimensions
  (\<open>scalar_arguments += ArgumentVisitor().visit(dimension_parameter)\<close>).\<close>

definition scalar_arguments :: "node list \<Rightarrow> node list" where
  "scalar_arguments dimension_parameters =
     concat (map ArgumentVisitor_visit_DimensionParameter dimension_parameters)"

text \<open>The value \<open>_build_argument_mapper\<close> returns. The tensor arguments, the
  dimension parameters and the other arguments are built from provider classes of
  other modules and are taken as given.\<close>

definition build_argument_mapper :: "node list \<Rightarrow> node list \<Rightarrow> node list \<Rightarrow> node list" where
  "build_argument_mapper tensor_arguments dimension_parameters other_arguments =
     tensor_arguments @ dimension_parameters @ scalar_arguments dimension_parameters
       @ other_arguments"

subsection \<open>Values and the known-value mapping\<close>

text \<open>A runtime value: \<open>None\<close>, an integer, an array (its shape), a node object, or
  an \<open>UnevaluatedDependency\<close>. The evaluator of a deferred value is either the function
  \<open>derive_dle_argument_value\<close>, with the tiling descriptor as extra parameter, or the
  closure \<open>late_evaluate_dim_size\<close>, which captures \<open>unknown_args\<close> and receives the
  partial values as extra parameter.\<close>

datatype "value" =
    VNone
  | VInt int
  | VArray "nat list"
  | VNode node
  | UnevaluatedDependency node evaluator
and evaluator =
    DeriveDle dle_argument
  | LateEvaluateDimSize "target list" "value list"

fun of_literal :: "literal \<Rightarrow> value" where
  "of_literal LNone = VNone"
| "of_literal (LInt i) = VInt i"
| "of_literal (LArray shape) = VArray shape"

fun is_Unevaluated :: "value \<Rightarrow> bool" where
  "is_Unevaluated (UnevaluatedDependency c e) = True"
| "is_Unevaluated _ = False"

text \<open>An insertion-ordered dictionary is an association list with distinct keys:
  assignment replaces the value of a key in place or appends a new key.\<close>

type_synonym ('k, 'v) odict = "('k \<times> 'v) list"

fun setitem :: "('k, 'v) odict \<Rightarrow> 'k \<Rightarrow> 'v \<Rightarrow> ('k, 'v) odict" where
  "setitem [] k v = [(k, v)]"
| "setitem ((k', v') # kvs) k v =
     (if k' = k then (k, v) # kvs else (k', v') # setitem kvs k v)"

definition odict_of :: "('k \<times> 'v) list \<Rightarrow> ('k, 'v) odict" where
  "odict_of items = foldl (\<lambda>m (k, v). setitem m k v) [] items"

text \<open>Integer subtraction; every other pair of operands is a \<open>TypeError\<close>
  (arithmetic on array values is left out of the model).\<close>

fun py_sub :: "value \<Rightarrow> value \<Rightarrow> error + int" where
  "py_sub (VInt a) (VInt b) = Inr (a - b)"
| "py_sub _ _ = Inl TypeError"

text \<open>\<open>max(a, b)\<close> keeps \<open>a\<close> unless \<open>b > a\<close>; comparing anything but two
  integers is a \<open>TypeError\<close>.\<close>

fun py_max :: "value \<Rightarrow> value \<Rightarrow> error + value" where
  "py_max (VInt a) (VInt b) = Inr (VInt (if b > a then b else a))"
| "py_max _ _ = Inl TypeError"

text \<open>\<open>functools.reduce(function, sequence)\<close>: a \<open>TypeError\<close> on the empty
  sequence, the single element without any call on a singleton.\<close>

fun reduce_from :: "(value \<Rightarrow> value \<Rightarrow> error + value) \<Rightarrow> value \<Rightarrow> value list \<Rightarrow> error + value" where
  "reduce_from f acc [] = Inr acc"
| "reduce_from f acc (x # xs) =
     (case f acc x of Inl e \<Rightarrow> Inl e | Inr acc' \<Rightarrow> reduce_from f acc' xs)"

fun reduce :: "(value \<Rightarrow> value \<Rightarrow> error + value) \<Rightarrow> value list \<Rightarrow> error + value" where
  "reduce f [] = Inl TypeError"
| "reduce f (x # xs) = reduce_from f x xs"

subsection \<open>Dimension extents and tiling values\<close>

definition find_argument_by_name :: "string \<Rightarrow> (node, value) odict \<Rightarrow> error + value" where
  "find_argument_by_name n haystack =
     (let filtered = filter (\<lambda>(k, v). name k = n) haystack
      in if \<not> length filtered < 2 then Inl AssertionError
         else if length filtered = 1 then Inr (snd (hd filtered))
         else Inr VNone)"

text \<open>\<open>runtime_dim_extent\<close>: \<open>KeyError\<close> and \<open>TypeError\<close> are caught and give
  \<open>None\<close>; any other error propagates.\<close>

definition runtime_dim_extent :: "dimension \<Rightarrow> (node, value) odict \<Rightarrow> error + int option" where
  "runtime_dim_extent dimension values =
     (case find_argument_by_name (end_name dimension) values of
        Inl e \<Rightarrow> (if e = KeyError \<or> e = TypeError then Inr None else Inl e)
      | Inr e_val \<Rightarrow>
          (case find_argument_by_name (start_name dimension) values of
             Inl e \<Rightarrow> (if e = KeyError \<or> e = TypeError then Inr None else Inl e)
           | Inr s_val \<Rightarrow>
               (case py_sub e_val s_val of
                  Inl e \<Rightarrow> (if e = KeyError \<or> e = TypeError then Inr None else Inl e)
                | Inr v \<Rightarrow> Inr (Some v))))"

text \<open>Truthiness of a descriptor's value (\<open>if i.value:\<close>).\<close>

fun truthy :: "dle_value \<Rightarrow> bool" where
  "truthy NoValue = False"
| "truthy (FixedValue c) = (c \<noteq> 0)"
| "truthy (SizingFunction f) = True"

text \<open>\<open>try: value(dim_size) except TypeError: value\<close>: the resulting value, and
  whether the \<open>TypeError\<close> was raised. Only a sizing function can be called.\<close>

fun try_call :: "dle_value \<Rightarrow> int \<Rightarrow> value \<times> bool" where
  "try_call (SizingFunction f) dim_size = (VInt (f dim_size), False)"
| "try_call (FixedValue c) dim_size = (VInt c, True)"
| "try_call NoValue dim_size = (VNone, True)"

definition derive_dle_argument_value ::
  "node \<Rightarrow> (node, value) odict \<Rightarrow> dle_argument \<Rightarrow> error + value" where
  "derive_dle_argument_value blocked_dim known_values dle_arg =
     (case runtime_dim_extent (original_dim dle_arg) known_values of
        Inl e \<Rightarrow> Inl e
      | Inr None \<Rightarrow> Inr (UnevaluatedDependency blocked_dim (DeriveDle dle_arg))
      | Inr (Some dim_size) \<Rightarrow>
          if truthy (dle_value dle_arg)
          then Inr (fst (try_call (dle_value dle_arg) dim_size))
          else Inr (VInt dim_size))"

subsection \<open>The value visitor\<close>

text \<open>\<open>ValueVisitor(consumer, known_values).visit(o, param)\<close>, dispatching on the class
  of the visited object. A predicate takes an argument and its value, so calling it
  with the three arguments of an evaluator raises \<open>TypeError\<close>; a node of any other
  class is a plain object and is returned as it is. \<open>provided\<close> is the comprehension
  \<open>[get_value(o, x, known_values) for x in o.gets_value_from]\<close>, where visiting the
  dependency \<open>x\<close> visits \<open>x.obj\<close> with \<open>x.param\<close>.\<close>

definition visit_TensorArgument ::
  "node \<Rightarrow> (node, value) odict \<Rightarrow> node \<Rightarrow> param \<Rightarrow> error + value" where
  "visit_TensorArgument consumer known_values o' p =
     (if \<not> is_DimensionParameter consumer then Inl AssertionError
      else case map_of known_values o' of
        None \<Rightarrow> Inl KeyError
      | Some (VArray shape) \<Rightarrow>
          (case p of
             PIndex i \<Rightarrow> if i < length shape then Inr (VInt (int (shape ! i))) else Inl IndexError
           | _ \<Rightarrow> Inl TypeError)
      | Some _ \<Rightarrow> Inl AttributeError)"

definition unknown_args_of :: "dependency list \<Rightarrow> value list \<Rightarrow> target list" where
  "unknown_args_of gvf provided_values =
     map (\<lambda>(x, v). obj x) (filter (\<lambda>(x, v). v = VNone) (zip gvf provided_values))"

lemma size_obj_less: "size (obj x) < size x"
  by (cases x) simp

function (sequential) visit :: "node \<Rightarrow> (node, value) odict \<Rightarrow> target \<Rightarrow> param \<Rightarrow> error + value"
and provided :: "node \<Rightarrow> (node, value) odict \<Rightarrow> dependency list \<Rightarrow> error + value list" where
  "visit consumer known_values (Provider (Function n d)) p =
     (if is_TensorArgument consumer then Inr (of_literal d) else Inl AssertionError)"
| "visit consumer known_values (Provider (Constant n d)) p = Inr (of_literal d)"
| "visit consumer known_values (Provider (Object n v)) p = Inr (of_literal v)"
| "visit consumer known_values derive_dle_argument_value_fn p =
     (case p of
        PDle a \<Rightarrow> derive_dle_argument_value consumer known_values a
      | _ \<Rightarrow> Inl AttributeError)"
| "visit consumer known_values (Predicate f) p = Inl TypeError"
| "visit consumer known_values (PyObject l) p = Inr (of_literal l)"
| "visit consumer known_values (Node (DimensionParameter d ds)) p =
     (if name consumer = start_name d then Inr (VInt 0)
      else case provided (DimensionParameter d ds) known_values ds of
        Inl e \<Rightarrow> Inl e
      | Inr gathered \<Rightarrow>
          (let provided_values =
                 (case map_of known_values (DimensionParameter d ds) of
                    Some v \<Rightarrow> if \<not> is_Unevaluated v \<and> v \<noteq> VNone then [v] else gathered
                  | None \<Rightarrow> gathered)
           in if length provided_values > 1
              then if \<not> list_all (\<lambda>x. x \<noteq> VNone) provided_values
                   then Inr (UnevaluatedDependency (DimensionParameter d ds)
                          (LateEvaluateDimSize
                             (unknown_args_of
                                (filter (\<lambda>x. dependency_type x = gets_value_from) ds) gathered)
                             (filter (\<lambda>x. x \<noteq> VNone) provided_values)))
                   else reduce py_max provided_values
              else if length provided_values = 1 then Inr (hd provided_values)
              else Inr VNone))"
| "visit consumer known_values (Node (TensorArgument pr ds)) p =
     visit_TensorArgument consumer known_values (TensorArgument pr ds) p"
| "visit consumer known_values (Node (ScalarArgument n ds)) p = Inr (VNode (ScalarArgument n ds))"
| "visit consumer known_values (Node (PtrArgument pr)) p = Inr (VNode (PtrArgument pr))"
| "provided consumer known_values [] = Inr []"
| "provided consumer known_values (x # xs) =
     (if dependency_type x = gets_value_from
      then case visit consumer known_values (obj x) (param x) of
             Inl e \<Rightarrow> Inl e
           | Inr v \<Rightarrow>
               (case provided consumer known_values xs of
                  Inl e \<Rightarrow> Inl e
                | Inr vs \<Rightarrow> Inr (v # vs))
      else provided consumer known_values xs)"
  by pat_completeness auto

termination
proof (relation "measure (\<lambda>x. case x of
          Inl (c, kv, t, p) \<Rightarrow> 2 * size t
        | Inr (c, kv, ds) \<Rightarrow> 2 * size_list size ds + 1)", goal_cases)
  case 1
  show ?case by simp
next
  case (2 consumer known_values d ds p)
  show ?case by simp
next
  case (3 consumer known_values x xs)
  show ?case using size_obj_less [of x] by simp
next
  case (4 consumer known_values x xs x2)
  show ?case by simp
next
  case (5 consumer known_values x xs)
  show ?case by simp
qed

text \<open>\<open>get_value(consumer, provider, known_values)\<close> for a dependency (visited through
  \<open>visit_Dependency\<close>) and for a plain object (no parameter).\<close>

definition get_value :: "node \<Rightarrow> dependency \<Rightarrow> (node, value) odict \<Rightarrow> error + value" where
  "get_value consumer x known_values = visit consumer known_values (obj x) (param x)"

definition get_value_object :: "node \<Rightarrow> literal \<Rightarrow> (node, value) odict \<Rightarrow> error + value" where
  "get_value_object consumer l known_values = visit consumer known_values (PyObject l) PNone"

subsection \<open>Deferred values\<close>

text \<open>The closure \<open>late_evaluate_dim_size\<close>. \<open>known_values[x]\<close> raises \<open>KeyError\<close>
  for an object that is not a key of the mapping (the keys are nodes); the error is
  caught and leaves \<open>known\<close> empty.\<close>

definition lookup_target :: "(node, value) odict \<Rightarrow> target \<Rightarrow> value option" where
  "lookup_target known_values x = (case x of Node n \<Rightarrow> map_of known_values n | _ \<Rightarrow> None)"

definition late_evaluate_dim_size ::
  "target list \<Rightarrow> node \<Rightarrow> (node, value) odict \<Rightarrow> value list \<Rightarrow> error + value" where
  "late_evaluate_dim_size unknown_args consumer known_values partial_values =
     (let known =
            (case those (map (lookup_target known_values) unknown_args) of
               Some new_values \<Rightarrow> filter (\<lambda>x. x \<noteq> VNone) new_values
             | None \<Rightarrow> [])
      in reduce py_max (partial_values @ known))"

text \<open>\<open>UnevaluatedDependency.evaluate\<close>.\<close>

fun evaluate :: "node \<Rightarrow> evaluator \<Rightarrow> (node, value) odict \<Rightarrow> error + value" where
  "evaluate consumer (DeriveDle extra_param) known_values =
     derive_dle_argument_value consumer known_values extra_param"
| "evaluate consumer (LateEvaluateDimSize unknown_args extra_param) known_values =
     late_evaluate_dim_size unknown_args consumer known_values extra_param"

subsection \<open>The engine\<close>

text \<open>Keyword arguments are a dictionary from names to plain objects.\<close>

type_synonym kwargs = "(string, literal) odict"

definition pop :: "('k, 'v) odict \<Rightarrow> 'k \<Rightarrow> ('k, 'v) odict" where
  "pop kw k = filter (\<lambda>(k', v). k' \<noteq> k) kw"

record engine =
  arguments :: "node list"
  dims :: "node list"
  offsets :: "(string, int) odict"
  dimensions :: "dimension list"
  dle_arguments :: "dle_argument list"

text \<open>\<open>_offset_adjust\<close>: \<open>v + self.offsets[k]\<close> for every key in the offsets. Adding
  to \<open>None\<close> raises \<open>TypeError\<close>, as does (in this model) adding to an array.\<close>

fun py_add :: "literal \<Rightarrow> int \<Rightarrow> error + literal" where
  "py_add (LInt v) n = Inr (LInt (v + n))"
| "py_add _ n = Inl TypeError"

fun offset_adjust :: "(string, int) odict \<Rightarrow> kwargs \<Rightarrow> error + kwargs" where
  "offset_adjust offs [] = Inr []"
| "offset_adjust offs ((k, v) # kw) =
     (case map_of offs k of
        Some n \<Rightarrow>
          (case py_add v n of
             Inl e \<Rightarrow> Inl e
           | Inr v' \<Rightarrow>
               (case offset_adjust offs kw of Inl e \<Rightarrow> Inl e | Inr kw' \<Rightarrow> Inr ((k, v') # kw')))
      | None \<Rightarrow>
          (case offset_adjust offs kw of Inl e \<Rightarrow> Inl e | Inr kw' \<Rightarrow> Inr ((k, v) # kw')))"

text \<open>\<open>_extract_children_of_composites\<close> only acts on values that are
  \<open>CompositeFunction\<close> objects. No plain object is one, so the loop body never runs and
  the update with the empty \<open>new_params\<close> leaves the keywords as they are.\<close>

definition extract_children_of_composites :: "kwargs \<Rightarrow> error + kwargs" where
  "extract_children_of_composites kw = Inr kw"

text \<open>\<open>_derive_values\<close>, first loop: \<open>values[i] = get_value(i, kwargs.pop(i.name, None),
  values)\<close>.\<close>

fun seed_arguments ::
  "node list \<Rightarrow> kwargs \<Rightarrow> (node, value) odict \<Rightarrow> error + ((node, value) odict \<times> kwargs)" where
  "seed_arguments [] kw values = Inr (values, kw)"
| "seed_arguments (i # rest) kw values =
     (case get_value_object i (case map_of kw (name i) of None \<Rightarrow> LNone | Some l \<Rightarrow> l) values of
        Inl e \<Rightarrow> Inl e
      | Inr v \<Rightarrow> seed_arguments rest (pop kw (name i)) (setitem values i v))"

text \<open>Second loop: \<open>dimension_values[i] = kwargs.pop(i.name, None)\<close>.\<close>

fun seed_dims ::
  "node list \<Rightarrow> kwargs \<Rightarrow> (node, value) odict \<Rightarrow> (node, value) odict \<times> kwargs" where
  "seed_dims [] kw dimension_values = (dimension_values, kw)"
| "seed_dims (i # rest) kw dimension_values =
     seed_dims rest (pop kw (name i))
       (setitem dimension_values i
          (of_literal (case map_of kw (name i) of None \<Rightarrow> LNone | Some l \<Rightarrow> l)))"

fun join :: "string \<Rightarrow> string list \<Rightarrow> string" where
  "join sep [] = []"
| "join sep [x] = x"
| "join sep (x # y # ys) = x @ sep @ join sep (y # ys)"

text \<open>Third loop, deriving the values that are still \<open>None\<close>; \<open>provided\<close> is
  the comprehension over \<open>i.gets_value_from\<close>. With more than one provided value the
  code calls \<open>reduce(provided_values)\<close>: \<open>functools.reduce\<close> with a
  single argument, which raises \<open>TypeError\<close>.\<close>

definition chain_odict :: "(node, value) odict \<Rightarrow> (node, value) odict \<Rightarrow> (node, value) odict" where
  "chain_odict values dimension_values = foldl (\<lambda>m (k, v). setitem m k v) values dimension_values"

fun derive_loop ::
  "node list \<Rightarrow> (node, value) odict \<Rightarrow> (node, value) odict \<Rightarrow> error + (node, value) odict" where
  "derive_loop [] dimension_values values = Inr values"
| "derive_loop (i # rest) dimension_values values =
     (case map_of values i of
        None \<Rightarrow> Inl KeyError
      | Some v \<Rightarrow>
          if v = VNone
          then (let known_values = chain_odict values dimension_values
                in case provided i known_values (dependencies i) of
                     Inl e \<Rightarrow> Inl e
                   | Inr provided_values \<Rightarrow>
                       if \<not> length provided_values > 0 then Inl AssertionError
                       else if length provided_values = 1
                       then derive_loop rest dimension_values (setitem values i (hd provided_values))
                       else Inl TypeError)
          else derive_loop rest dimension_values values)"

text \<open>Last loop: \<open>for k, v in values.items(): if isinstance(v, UnevaluatedDependency):
  values[k] = v.evaluate(values)\<close>. Only the entry being visited is assigned, so the
  items are those of the mapping as it was when the loop started.\<close>

fun settle :: "(node \<times> value) list \<Rightarrow> (node, value) odict \<Rightarrow> error + (node, value) odict" where
  "settle [] values = Inr values"
| "settle ((k, v) # items) values =
     (case v of
        UnevaluatedDependency consumer ev \<Rightarrow>
          (case evaluate consumer ev values of
             Inl e \<Rightarrow> Inl e
           | Inr v' \<Rightarrow> settle items (setitem values k v'))
      | _ \<Rightarrow> settle items values)"

definition derive_values :: "engine \<Rightarrow> kwargs \<Rightarrow> error + (node, value) odict" where
  "derive_values eng kw =
     (case seed_arguments (arguments eng) kw [] of
        Inl e \<Rightarrow> Inl e
      | Inr (values, kw1) \<Rightarrow>
          (case seed_dims (dims eng) kw1 [] of
             (dimension_values, kw2) \<Rightarrow>
               if length kw2 > 0
               then Inl (InvalidArgument (''Unknown arguments passed: '' @ join '', '' (map fst kw2)))
               else (case derive_loop (arguments eng) dimension_values values of
                       Inl e \<Rightarrow> Inl e
                     | Inr values' \<Rightarrow> settle values' values')))"

text \<open>\<open>dict([(d.name, runtime_dim_extent(d, values)) for d in self.dimensions])\<close>.\<close>

fun dim_sizes_of ::
  "dimension list \<Rightarrow> (node, value) odict \<Rightarrow> error + (string, int option) odict" where
  "dim_sizes_of [] values = Inr []"
| "dim_sizes_of (d # rest) values =
     (case runtime_dim_extent d values of
        Inl e \<Rightarrow> Inl e
      | Inr ext \<Rightarrow>
          (case dim_sizes_of rest values of
             Inl e \<Rightarrow> Inl e
           | Inr items \<Rightarrow> Inr ((dim_name d, ext) # items)))"

definition unable_message :: "dimension \<Rightarrow> string" where
  "unable_message d =
     ''Unable to derive size of dimension '' @ dim_name d @
     '' from defaults. Please provide an explicit value.''"

text \<open>\<open>_dle_arguments\<close>, as a loop over the descriptors that carries the mapping built
  so far and the \<open>autotune\<close> flag. The result is paired with the messages written by
  \<open>error(...)\<close>. \<open>dim_sizes.get(name, None)\<close> is \<open>None\<close> for a missing name and for a
  name whose extent is \<open>None\<close>.\<close>

fun dle_loop ::
  "dle_argument list \<Rightarrow> (string, int option) odict \<Rightarrow> (string, value) odict \<Rightarrow> bool
     \<Rightarrow> string list \<times> (error + ((string, value) odict \<times> bool))" where
  "dle_loop [] dim_sizes acc autotune = ([], Inr (acc, autotune))"
| "dle_loop (i # rest) dim_sizes acc autotune =
     (case (case map_of dim_sizes (dim_name (original_dim i)) of None \<Rightarrow> None | Some x \<Rightarrow> x) of
        None \<Rightarrow> ([unable_message (original_dim i)], Inl (InvalidArgument ''Unknown dimension size''))
      | Some dim_size \<Rightarrow>
          if truthy (dle_value i)
          then (case try_call (dle_value i) dim_size of
                  (v, raised) \<Rightarrow>
                    dle_loop rest dim_sizes (setitem acc (dim_name (argument i)) v)
                      (if raised then False else autotune))
          else dle_loop rest dim_sizes (setitem acc (dim_name (argument i)) (VInt dim_size)) autotune)"

definition dle_arguments_of ::
  "engine \<Rightarrow> (string, int option) odict
     \<Rightarrow> string list \<times> (error + ((string, value) odict \<times> bool))" where
  "dle_arguments_of eng dim_sizes = dle_loop (dle_arguments eng) dim_sizes [] True"

text \<open>\<open>_verify\<close>. The loop variable \<open>verify\<close> is the boolean: while it is \<open>True\<close>,
  \<open>all(verify(i, x) for x in i.verified_by)\<close> calls it on the first dependency, and
  calling a boolean raises \<open>TypeError\<close>; on an empty \<open>verified_by\<close> the result of
  \<open>all\<close> is \<open>True\<close>. When it is \<open>False\<close> the conjunction short-circuits.\<close>

fun verify_loop :: "bool \<Rightarrow> node list \<Rightarrow> error + bool" where
  "verify_loop verify [] = Inr verify"
| "verify_loop verify (i # rest) =
     (if verify
      then (if verified_by_deps i = [] then verify_loop True rest else Inl TypeError)
      else verify_loop False rest)"

definition verify_values :: "(node, value) odict \<Rightarrow> error + bool" where
  "verify_values values = verify_loop True (map fst values)"

text \<open>\<open>handle\<close>. The keyword \<open>autotune\<close> is passed apart from the other keywords
  (\<open>None\<close> when it is absent, where \<open>kwargs.pop('autotune', False)\<close> gives \<open>False\<close>).
  The result pairs the messages logged with the outcome: the error raised, or the
  ordered mapping from argument names to values and the autotune flag.\<close>

definition handle ::
  "engine \<Rightarrow> bool option \<Rightarrow> kwargs
     \<Rightarrow> string list \<times> (error + ((string, value) odict \<times> bool))" where
  "handle eng autotune kw =
     (let user_autotune = (case autotune of None \<Rightarrow> False | Some b \<Rightarrow> b)
      in case offset_adjust (offsets eng) kw of
           Inl e \<Rightarrow> ([], Inl e)
         | Inr kw1 \<Rightarrow>
        (case extract_children_of_composites kw1 of
           Inl e \<Rightarrow> ([], Inl e)
         | Inr kw2 \<Rightarrow>
        (case derive_values eng kw2 of
           Inl e \<Rightarrow> ([], Inl e)
         | Inr values \<Rightarrow>
        (case dim_sizes_of (dimensions eng) values of
           Inl e \<Rightarrow> ([], Inl e)
         | Inr items \<Rightarrow>
        (case dle_arguments_of eng (odict_of items) of
           (log, Inl e) \<Rightarrow> (log, Inl e)
         | (log, Inr (dle_args, dle_autotune)) \<Rightarrow>
        (case verify_values values of
           Inl e \<Rightarrow> (log, Inl e)
         | Inr ok \<Rightarrow>
             if \<not> ok then (log, Inl AssertionError)
             else (log, Inr (odict_of (map (\<lambda>(k, v). (name k, v)) values),
                             user_autotune \<and> dle_autotune))))))))"

subsection \<open>Construction of the engine\<close>

text \<open>Modelled from the spec: \<open>filter_ordered\<close> of \<open>devito.tools\<close> is not part of the
  sources. Of the elements with the same key, the first is kept; the order is that
  of the first occurrences.\<close>

fun filter_ordered_seen :: "('a \<Rightarrow> 'k) \<Rightarrow> 'k list \<Rightarrow> 'a list \<Rightarrow> 'a list" where
  "filter_ordered_seen key seen [] = []"
| "filter_ordered_seen key seen (x # xs) =
     (if key x \<in> set seen then filter_ordered_seen key seen xs
      else x # filter_ordered_seen key (key x # seen) xs)"

definition filter_ordered :: "'a list \<Rightarrow> ('a \<Rightarrow> 'k) \<Rightarrow> 'a list" where
  "filter_ordered elements key = filter_ordered_seen key [] elements"

text \<open>Modelled from the spec: \<open>retrieve_offsets\<close> of \<open>devito.ir.support.stencil\<close> is
  not part of the sources. A stencil maps dimensions to sets of relative integer
  offsets; the offset of a dimension is the maximum absolute relative offset observed
  over all stencils.\<close>

type_synonym stencil = "(dimension \<times> int list) list"

definition observed :: "stencil list \<Rightarrow> dimension \<Rightarrow> int list" where
  "observed stencils d = concat (map snd (filter (\<lambda>(d', offs). d' = d) (concat stencils)))"

definition retrieve_offsets :: "stencil list \<Rightarrow> (dimension, int) odict" where
  "retrieve_offsets stencils =
     map (\<lambda>d. (d, fold (\<lambda>x m. max \<bar>x\<bar> m) (observed stencils d) 0))
       (remdups (map fst (filter (\<lambda>(d, offs). offs \<noteq> []) (concat stencils))))"

text \<open>\<open>ArgumentEngine.__init__\<close>, from the parts of the argument mapper, the
  declared dimensions (\<open>self.dimensions\<close>), the stencils and the tiling descriptors.\<close>

definition ArgumentEngine ::
  "stencil list \<Rightarrow> node list \<Rightarrow> node list \<Rightarrow> node list \<Rightarrow> dimension list
     \<Rightarrow> dle_argument list \<Rightarrow> engine" where
  "ArgumentEngine stencils tensor_arguments dimension_parameters other_arguments
       declared_dimensions dle_args =
     (let argument_mapper =
            build_argument_mapper tensor_arguments dimension_parameters other_arguments
      in \<lparr> arguments = filter_ordered (filter is_Argument argument_mapper) name,
           dims = filter is_DimensionParameter argument_mapper,
           offsets = odict_of (map (\<lambda>(d, v). (end_name d, v)) (retrieve_offsets stencils)),
           dimensions = declared_dimensions,
           dle_arguments = dle_args \<rparr>)"

subsection \<open>Auxiliary definitions and example engines\<close>

text \<open>The value an argument is seeded with in the first loop of \<open>_derive_values\<close>,
  and small engines on which the theorems below are instantiated.\<close>

definition seeded :: "kwargs \<Rightarrow> node \<Rightarrow> value" where
  "seeded kw i = of_literal (case map_of kw (name i) of None \<Rightarrow> LNone | Some l \<Rightarrow> l)"

definition example_u :: node where
  "example_u = TensorArgument (Function ''u'' (LArray [10])) []"

definition example_w :: node where
  "example_w = TensorArgument (Function ''w'' (LArray [14])) []"

definition example_x :: node where
  "example_x = DimensionParameter (Dimension ''x'')
     [Dependency gets_value_from (Node example_u) (PIndex 0),
      Dependency gets_value_from (Node example_w) (PIndex 0)]"

definition example_engine :: engine where
  "example_engine =
     ArgumentEngine [[(Dimension ''x'', [-1, 0, 2])]] [example_u, example_w] [example_x] []
       [Dimension ''x''] []"

definition duplicate_engine :: engine where
  "duplicate_engine =
     ArgumentEngine [[(Dimension ''x'', [-1, 0, 2])]] [example_u, example_w] [example_x]
       [example_u, PtrArgument (Object ''x_s'' (LInt 7))] [Dimension ''x''] []"


definition dim_size_get :: "(string, int option) odict \<Rightarrow> dle_argument \<Rightarrow> int option" where
  "dim_size_get dim_sizes i =
     (case map_of dim_sizes (dim_name (original_dim i)) of None \<Rightarrow> None | Some x \<Rightarrow> x)"

text \<open>Engines with one tiling descriptor: a sizing function, a fixed tile, and a
  descriptor whose blocked dimension has no source for its extent.\<close>

definition tile_function :: dle_argument where
  "tile_function = \<lparr>argument = Dimension ''xb'', original_dim = Dimension ''x'',
                     dle_value = SizingFunction (\<lambda>n. n div 2)\<rparr>"

definition tile_fixed :: dle_argument where
  "tile_fixed = \<lparr>argument = Dimension ''xb'', original_dim = Dimension ''x'',
                  dle_value = FixedValue 8\<rparr>"

definition tiled_engine :: "dle_argument \<Rightarrow> engine" where
  "tiled_engine t =
     ArgumentEngine [] [example_u, example_w]
       [example_x,
        DimensionParameter (Dimension ''xb'')
          [Dependency gets_value_from derive_dle_argument_value_fn (PDle t)]]
       [] [Dimension ''x''] [t]"

definition tile_unresolved :: dle_argument where
  "tile_unresolved = \<lparr>argument = Dimension ''yb'', original_dim = Dimension ''y'',
                       dle_value = NoValue\<rparr>"

definition unresolved_engine :: engine where
  "unresolved_engine =
     ArgumentEngine [] []
       [DimensionParameter (Dimension ''y'') [],
        DimensionParameter (Dimension ''yb'')
          [Dependency gets_value_from derive_dle_argument_value_fn (PDle tile_unresolved)]]
       [] [Dimension ''y''] [tile_unresolved]"











section \<open>Auxiliary lemmas\<close>

lemma map_of_setitem: "map_of (setitem m k v) = (map_of m)(k \<mapsto> v)"
  by (induction m) (auto simp: fun_eq_iff)

lemma keys_setitem_present: "k \<in> set (map fst m) \<Longrightarrow> map fst (setitem m k v) = map fst m"
  by (induction m) force+

lemma keys_setitem_absent: "k \<notin> set (map fst m) \<Longrightarrow> setitem m k v = m @ [(k, v)]"
  by (induction m) auto

lemma map_of_keys: "map_of m k = Some v \<Longrightarrow> k \<in> set (map fst m)"
  by (metis map_of_eq_None_iff option.distinct(1) set_map)

lemma foldl_setitem_distinct:
  "distinct (map fst (acc @ items)) \<Longrightarrow>
   foldl (\<lambda>m (k, v). setitem m k v) acc items = acc @ items"
proof (induction items arbitrary: acc)
  case Nil
  then show ?case by simp
next
  case (Cons x items)
  obtain k v where x: "x = (k, v)" by (cases x)
  from Cons.prems x have "k \<notin> set (map fst acc)" by auto
  then have s: "setitem acc k v = acc @ [(k, v)]" by (rule keys_setitem_absent)
  from Cons.prems x have "distinct (map fst ((acc @ [(k, v)]) @ items))" by simp
  then have "foldl (\<lambda>m (k, v). setitem m k v) (acc @ [(k, v)]) items = (acc @ [(k, v)]) @ items"
    by (rule Cons.IH)
  with s x show ?case by simp
qed

lemma odict_of_distinct: "distinct (map fst items) \<Longrightarrow> odict_of items = items"
  using foldl_setitem_distinct [of "[]" items] by (simp add: odict_of_def)

lemma get_value_object_eq: "get_value_object i l vals = Inr (of_literal l)"
  by (simp add: get_value_object_def)

lemma map_of_pop_other: "k' \<noteq> k \<Longrightarrow> map_of (pop kw k) k' = map_of kw k'"
  by (induction kw) (auto simp: pop_def)

lemma seed_arguments_eq:
  "distinct (map name args) \<Longrightarrow> set (map fst vals) \<inter> set args = {} \<Longrightarrow>
   seed_arguments args kw vals =
     Inr (vals @ map (\<lambda>i. (i, seeded kw i)) args,
          filter (\<lambda>(k, v). k \<notin> set (map name args)) kw)"
proof (induction args arbitrary: kw vals)
  case Nil
  then show ?case by simp
next
  case (Cons i rest)
  let ?v = "seeded kw i"
  from Cons.prems have absent: "i \<notin> set (map fst vals)" by auto
  have step: "setitem vals i ?v = vals @ [(i, ?v)]"
    using absent by (rule keys_setitem_absent)
  from Cons.prems have d: "distinct (map name rest)" and ni: "name i \<notin> set (map name rest)"
    by auto
  from ni have "i \<notin> set rest" by auto
  with Cons.prems have disj: "set (map fst (vals @ [(i, ?v)])) \<inter> set rest = {}" by auto
  have same: "map (\<lambda>j. (j, seeded (pop kw (name i)) j)) rest = map (\<lambda>j. (j, seeded kw j)) rest"
  proof (rule map_cong [OF refl])
    fix j assume "j \<in> set rest"
    with ni have "name j \<noteq> name i" by (metis imageI list.set_map)
    then show "(j, seeded (pop kw (name i)) j) = (j, seeded kw j)"
      by (simp add: seeded_def map_of_pop_other)
  qed
  have filt: "filter (\<lambda>(k, v). k \<notin> set (map name rest)) (pop kw (name i)) =
              filter (\<lambda>(k, v). k \<notin> set (map name (i # rest))) kw"
    by (induction kw) (auto simp: pop_def)
  show ?case
    using Cons.IH [OF d disj, of "pop kw (name i)"] step same filt
    by (simp add: get_value_object_eq seeded_def)
qed


lemma derive_loop_keys:
  "derive_loop args dv vals = Inr vals' \<Longrightarrow> map fst vals' = map fst vals"
proof (induction args arbitrary: vals)
  case Nil
  then show ?case by simp
next
  case (Cons i rest)
  from Cons.prems obtain v where v: "map_of vals i = Some v"
    by (auto split: option.splits)
  show ?case
  proof (cases "v = VNone")
    case False
    with Cons.prems v have "derive_loop rest dv vals = Inr vals'" by simp
    then show ?thesis by (rule Cons.IH)
  next
    case True
    with Cons.prems v obtain pv where
      r: "derive_loop rest dv (setitem vals i pv) = Inr vals'"
      by (auto simp: Let_def split: sum.splits if_splits)
    from r have "map fst vals' = map fst (setitem vals i pv)" by (rule Cons.IH)
    moreover from v have "i \<in> set (map fst vals)" by (rule map_of_keys)
    ultimately show ?thesis by (simp add: keys_setitem_present)
  qed
qed

lemma derive_loop_keeps:
  "derive_loop args dv vals = Inr vals' \<Longrightarrow> map_of vals k = Some w \<Longrightarrow> w \<noteq> VNone \<Longrightarrow>
   map_of vals' k = Some w"
proof (induction args arbitrary: vals)
  case Nil
  then show ?case by simp
next
  case (Cons i rest)
  from Cons.prems(1) obtain v where v: "map_of vals i = Some v"
    by (auto split: option.splits)
  show ?case
  proof (cases "v = VNone")
    case False
    with Cons.prems(1) v have "derive_loop rest dv vals = Inr vals'" by simp
    then show ?thesis using Cons.prems(2,3) by (rule Cons.IH)
  next
    case True
    with Cons.prems(1) v obtain pv where
      r: "derive_loop rest dv (setitem vals i pv) = Inr vals'"
      by (auto simp: Let_def split: sum.splits if_splits)
    from True v Cons.prems(2,3) have "i \<noteq> k" by auto
    with Cons.prems(2) have "map_of (setitem vals i pv) k = Some w"
      by (simp add: map_of_setitem)
    with r show ?thesis using Cons.prems(3) by (rule Cons.IH)
  qed
qed

lemma settle_keys:
  "settle items vals = Inr vals' \<Longrightarrow> set (map fst items) \<subseteq> set (map fst vals) \<Longrightarrow>
   map fst vals' = map fst vals"
proof (induction items arbitrary: vals)
  case Nil
  then show ?case by simp
next
  case (Cons x items)
  obtain k v where x: "x = (k, v)" by (cases x)
  show ?case
  proof (cases "is_Unevaluated v")
    case False
    with Cons.prems(1) x have "settle items vals = Inr vals'" by (cases v) simp_all
    then show ?thesis using Cons.prems(2) by (intro Cons.IH) auto
  next
    case True
    then obtain c ev where u: "v = UnevaluatedDependency c ev" by (cases v) simp_all
    with Cons.prems(1) x obtain v' where
      r: "settle items (setitem vals k v') = Inr vals'"
      by (auto split: sum.splits)
    from Cons.prems(2) x have kin: "k \<in> set (map fst vals)" by simp
    then have same: "map fst (setitem vals k v') = map fst vals" by (rule keys_setitem_present)
    with Cons.prems(2) have "set (map fst items) \<subseteq> set (map fst (setitem vals k v'))" by simp
    with r have "map fst vals' = map fst (setitem vals k v')" by (rule Cons.IH)
    with same show ?thesis by simp
  qed
qed

lemma settle_keeps:
  "settle items vals = Inr vals' \<Longrightarrow> (\<And>v. (k, v) \<in> set items \<Longrightarrow> \<not> is_Unevaluated v) \<Longrightarrow>
   map_of vals' k = map_of vals k"
proof (induction items arbitrary: vals)
  case Nil
  then show ?case by simp
next
  case (Cons x items)
  obtain k' v where x: "x = (k', v)" by (cases x)
  show ?case
  proof (cases "is_Unevaluated v")
    case False
    with Cons.prems(1) x have "settle items vals = Inr vals'" by (cases v) simp_all
    then show ?thesis using Cons.prems(2) by (intro Cons.IH) auto
  next
    case True
    then obtain c ev where u: "v = UnevaluatedDependency c ev" by (cases v) simp_all
    with Cons.prems(1) x obtain v' where
      r: "settle items (setitem vals k' v') = Inr vals'"
      by (auto split: sum.splits)
    from True x Cons.prems(2) [of v] have "k' \<noteq> k" by auto
    have "map_of vals' k = map_of (setitem vals k' v') k"
      using r Cons.prems(2) by (intro Cons.IH) auto
    with \<open>k' \<noteq> k\<close> show ?thesis by (simp add: map_of_setitem)
  qed
qed

lemma handle_returns:
  assumes "handle eng autotune kw = (log, Inr (res, flag))"
  shows "\<exists>kw1 vals items dle_args dle_autotune.
           offset_adjust (offsets eng) kw = Inr kw1 \<and>
           derive_values eng kw1 = Inr vals \<and>
           dim_sizes_of (dimensions eng) vals = Inr items \<and>
           dle_arguments_of eng (odict_of items) = (log, Inr (dle_args, dle_autotune)) \<and>
           verify_values vals = Inr True \<and>
           res = odict_of (map (\<lambda>(k, v). (name k, v)) vals) \<and>
           flag = ((case autotune of None \<Rightarrow> False | Some b \<Rightarrow> b) \<and> dle_autotune)"
  using assms
  by (auto simp: handle_def extract_children_of_composites_def Let_def
      split: sum.splits prod.splits if_splits)

lemma derive_values_unfold:
  assumes d: "distinct (map name (arguments eng))"
  shows "derive_values eng kw =
     (let vals0 = map (\<lambda>i. (i, seeded kw i)) (arguments eng);
          r = seed_dims (dims eng) (filter (\<lambda>(k, v). k \<notin> set (map name (arguments eng))) kw) []
      in if length (snd r) > 0
         then Inl (InvalidArgument (''Unknown arguments passed: '' @ join '', '' (map fst (snd r))))
         else case derive_loop (arguments eng) (fst r) vals0 of
                Inl e \<Rightarrow> Inl e
              | Inr vals1 \<Rightarrow> settle vals1 vals1)"
  using seed_arguments_eq [OF d, of "[]" kw]
  by (simp add: derive_values_def Let_def split: prod.splits)

lemma derive_values_passes:
  assumes d: "distinct (map name (arguments eng))"
    and r: "derive_values eng kw = Inr vals"
  shows "\<exists>dv vals1.
           derive_loop (arguments eng) dv (map (\<lambda>i. (i, seeded kw i)) (arguments eng)) = Inr vals1 \<and>
           settle vals1 vals1 = Inr vals \<and>
           map fst vals1 = arguments eng \<and> map fst vals = arguments eng"
proof -
  let ?vals0 = "map (\<lambda>i. (i, seeded kw i)) (arguments eng)"
  from r obtain dv vals1 where
    l: "derive_loop (arguments eng) dv ?vals0 = Inr vals1" and s: "settle vals1 vals1 = Inr vals"
    unfolding derive_values_unfold [OF d] Let_def
    by (auto split: if_splits sum.splits)
  from l have k1: "map fst vals1 = map fst ?vals0" by (rule derive_loop_keys)
  then have k1': "map fst vals1 = arguments eng" by (simp add: comp_def)
  from s have "map fst vals = map fst vals1" by (rule settle_keys) simp
  with l s k1' show ?thesis by auto
qed

lemma distinct_names_nodes: "distinct (map name xs) \<Longrightarrow> distinct xs"
  by (rule distinct_map [THEN iffD1, THEN conjunct1])

lemma map_of_seed:
  "i \<in> set args \<Longrightarrow> map_of (map (\<lambda>i. (i, seeded kw i)) args) i = Some (seeded kw i)"
  by (induction args) auto

lemma derive_values_keeps:
  assumes d: "distinct (map name (arguments eng))"
    and r: "derive_values eng kw = Inr vals"
    and i: "i \<in> set (arguments eng)"
    and v: "seeded kw i \<noteq> VNone" "\<not> is_Unevaluated (seeded kw i)"
  shows "map_of vals i = Some (seeded kw i)"
proof -
  from derive_values_passes [OF d r] obtain dv vals1 where
    l: "derive_loop (arguments eng) dv (map (\<lambda>i. (i, seeded kw i)) (arguments eng)) = Inr vals1"
    and s: "settle vals1 vals1 = Inr vals" and k1: "map fst vals1 = arguments eng"
    by blast
  from l map_of_seed [OF i] v(1) have m1: "map_of vals1 i = Some (seeded kw i)"
    by (rule derive_loop_keeps)
  from d k1 have dk: "distinct (map fst vals1)" by (simp add: distinct_names_nodes)
  have "map_of vals i = map_of vals1 i"
  proof (rule settle_keeps [OF s])
    fix w assume "(i, w) \<in> set vals1"
    with dk have "map_of vals1 i = Some w" by simp
    with m1 v(2) show "\<not> is_Unevaluated w" by simp
  qed
  with m1 show ?thesis by simp
qed

lemma result_mapping:
  assumes d: "distinct (map name (arguments eng))"
    and r: "derive_values eng kw = Inr vals"
  shows "odict_of (map (\<lambda>(k, v). (name k, v)) vals) = map (\<lambda>(k, v). (name k, v)) vals"
    and "map fst (map (\<lambda>(k, v). (name k, v)) vals) = map name (arguments eng)"
proof -
  from derive_values_passes [OF d r] have k: "map fst vals = arguments eng" by blast
  have e: "map fst (map (\<lambda>(k, v). (name k, v)) vals) = map name (map fst vals)"
    by (induction vals) auto
  with k show "map fst (map (\<lambda>(k, v). (name k, v)) vals) = map name (arguments eng)" by simp
  with d show "odict_of (map (\<lambda>(k, v). (name k, v)) vals) = map (\<lambda>(k, v). (name k, v)) vals"
    by (intro odict_of_distinct) simp
qed

lemma result_lookup:
  assumes d: "distinct (map name (map fst vals))" and m: "map_of vals i = Some v"
  shows "map_of (map (\<lambda>(k, v). (name k, v)) vals) (name i) = Some v"
  using d m
proof (induction vals)
  case Nil
  then show ?case by simp
next
  case (Cons x vals)
  obtain k w where x: "x = (k, w)" by (cases x)
  show ?case
  proof (cases "k = i")
    case True
    with Cons.prems x show ?thesis by simp
  next
    case False
    with Cons.prems x have mi: "map_of vals i = Some v" by simp
    then have "i \<in> set (map fst vals)" by (rule map_of_keys)
    with Cons.prems(1) x have "name k \<noteq> name i" by auto
    moreover from Cons.prems(1) mi have "map_of (map (\<lambda>(k, v). (name k, v)) vals) (name i) = Some v"
      by (intro Cons.IH) simp_all
    ultimately show ?thesis using x by simp
  qed
qed

lemma remdups_snoc: "remdups (ys @ [a]) = remdups (filter (\<lambda>k. k \<noteq> a) ys) @ [a]"
  by (induction ys) auto

lemma filter_ordered_seen_keys:
  "map key (filter_ordered_seen key seen xs) =
     rev (remdups (rev (filter (\<lambda>k. k \<notin> set seen) (map key xs))))"
proof (induction xs arbitrary: seen)
  case Nil
  then show ?case by simp
next
  case (Cons x xs)
  show ?case
  proof (cases "key x \<in> set seen")
    case True
    with Cons.IH [of seen] show ?thesis by simp
  next
    case False
    let ?ks = "filter (\<lambda>k. k \<notin> set seen) (map key xs)"
    have f: "filter (\<lambda>k. k \<notin> set (key x # seen)) (map key xs) = filter (\<lambda>k. k \<noteq> key x) ?ks"
      by (induction xs) auto
    have "remdups (rev ?ks @ [key x]) = remdups (filter (\<lambda>k. k \<noteq> key x) (rev ?ks)) @ [key x]"
      by (rule remdups_snoc)
    then have "rev (remdups (rev ?ks @ [key x])) = key x # rev (remdups (rev (filter (\<lambda>k. k \<noteq> key x) ?ks)))"
      by (simp add: rev_filter)
    with False Cons.IH [of "key x # seen"] f show ?thesis by simp
  qed
qed

lemma filter_ordered_distinct: "distinct (map key (filter_ordered xs key))"
  by (simp add: filter_ordered_def filter_ordered_seen_keys)

lemma filter_ordered_seen_find:
  "find (\<lambda>y. key y = k) (filter_ordered_seen key seen xs) =
     (if k \<in> set seen then None else find (\<lambda>y. key y = k) xs)"
proof (induction xs arbitrary: seen)
  case Nil
  then show ?case by simp
next
  case (Cons x xs)
  then show ?case by auto
qed

lemmas engine_defs =
  ArgumentEngine_def build_argument_mapper_def scalar_arguments_def
  ArgumentVisitor_visit_DimensionParameter_def filter_ordered_def retrieve_offsets_def
  observed_def odict_of_def size_name_def start_name_def end_name_def Let_def

lemmas handle_defs =
  handle_def derive_values_def extract_children_of_composites_def get_value_object_def
  pop_def chain_odict_def visit_TensorArgument_def unknown_args_of_def
  runtime_dim_extent_def find_argument_by_name_def dle_arguments_of_def verify_values_def
  verified_by_deps_def late_evaluate_dim_size_def lookup_target_def
  derive_dle_argument_value_def unable_message_def

lemmas example_defs = example_u_def example_w_def example_x_def example_engine_def

lemma offset_adjust_keys: "offset_adjust offs kw = Inr kw1 \<Longrightarrow> map fst kw1 = map fst kw"
proof (induction kw arbitrary: kw1)
  case Nil
  then show ?case by simp
next
  case (Cons x kw)
  obtain k v where x: "x = (k, v)" by (cases x)
  from Cons.prems x obtain v' kw' where
    "offset_adjust offs kw = Inr kw'" "kw1 = (k, v') # kw'"
    by (auto split: option.splits sum.splits)
  with Cons.IH [of kw'] show ?case using x by simp
qed

lemma offset_adjust_int:
  "offset_adjust offs kw = Inr kw1 \<Longrightarrow> map_of kw k = Some (LInt E) \<Longrightarrow>
   map_of kw1 k = Some (LInt (case map_of offs k of None \<Rightarrow> E | Some n \<Rightarrow> E + n))"
proof (induction kw arbitrary: kw1)
  case Nil
  then show ?case by simp
next
  case (Cons x kw)
  obtain k' v where x: "x = (k', v)" by (cases x)
  from Cons.prems(1) x obtain v' kw' where
    r: "offset_adjust offs kw = Inr kw'" and k: "kw1 = (k', v') # kw'"
    and v': "(case map_of offs k' of None \<Rightarrow> Inr v | Some n \<Rightarrow> py_add v n) = Inr v'"
    by (auto split: option.splits sum.splits)
  show ?case
  proof (cases "k' = k")
    case True
    with Cons.prems(2) x have "v = LInt E" by simp
    with v' True k show ?thesis by (auto split: option.splits)
  next
    case False
    with Cons.prems(2) x have "map_of kw k = Some (LInt E)" by simp
    with r have "map_of kw' k = Some (LInt (case map_of offs k of None \<Rightarrow> E | Some n \<Rightarrow> E + n))"
      by (rule Cons.IH)
    with False k show ?thesis by simp
  qed
qed

lemma provided_start:
  "name s = start_name d \<Longrightarrow>
   provided s kv [Dependency gets_value_from (Node (DimensionParameter d ds)) PNone] = Inr [VInt 0]"
  by simp

lemma derive_loop_start:
  assumes s: "s = ScalarArgument (start_name d)
                 [Dependency gets_value_from (Node (DimensionParameter d ds)) PNone]"
  shows "derive_loop args dv vals = Inr vals' \<Longrightarrow> s \<in> set args \<Longrightarrow>
         map_of vals s = Some VNone \<Longrightarrow> map_of vals' s = Some (VInt 0)"
proof (induction args arbitrary: vals)
  case Nil
  then show ?case by simp
next
  case (Cons i rest)
  show ?case
  proof (cases "i = s")
    case True
    have p: "provided s (chain_odict vals dv) (dependencies s) = Inr [VInt 0]"
      unfolding s by simp
    from Cons.prems(1,3) True p
    have r: "derive_loop rest dv (setitem vals s (VInt 0)) = Inr vals'"
      by (simp add: Let_def)
    have "map_of (setitem vals s (VInt 0)) s = Some (VInt 0)" by (simp add: map_of_setitem)
    with r show ?thesis by (rule derive_loop_keeps) simp
  next
    case False
    with Cons.prems(2) have sr: "s \<in> set rest" by simp
    from Cons.prems(1) obtain v where v: "map_of vals i = Some v"
      by (auto split: option.splits)
    show ?thesis
    proof (cases "v = VNone")
      case nn: False
      with Cons.prems(1) v have "derive_loop rest dv vals = Inr vals'" by simp
      then show ?thesis using sr Cons.prems(3) by (rule Cons.IH)
    next
      case True
      with Cons.prems(1) v obtain pv where
        r: "derive_loop rest dv (setitem vals i pv) = Inr vals'"
        by (auto simp: Let_def split: sum.splits if_splits)
      from False Cons.prems(3) have "map_of (setitem vals i pv) s = Some VNone"
        by (simp add: map_of_setitem)
      with r sr show ?thesis by (rule Cons.IH)
    qed
  qed
qed

lemma settle_keeps_value:
  assumes s: "settle vals1 vals1 = Inr vals" and dk: "distinct (map fst vals1)"
    and m: "map_of vals1 i = Some v" and v: "\<not> is_Unevaluated v"
  shows "map_of vals i = Some v"
proof -
  have "map_of vals i = map_of vals1 i"
  proof (rule settle_keeps [OF s])
    fix w assume "(i, w) \<in> set vals1"
    with dk have "map_of vals1 i = Some w" by simp
    with m v show "\<not> is_Unevaluated w" by simp
  qed
  with m show ?thesis by simp
qed

lemma handle_result_lookup:
  assumes d: "distinct (map name (arguments eng))"
    and v: "derive_values eng kw1 = Inr vals"
    and m: "map_of vals i = Some x"
  shows "map_of (odict_of (map (\<lambda>(k, v). (name k, v)) vals)) (name i) = Some x"
proof -
  from derive_values_passes [OF d v] have "map fst vals = arguments eng" by blast
  with d have "distinct (map name (map fst vals))" by simp
  then have "map_of (map (\<lambda>(k, v). (name k, v)) vals) (name i) = Some x"
    using m by (rule result_lookup)
  with result_mapping(1) [OF d v] show ?thesis by simp
qed

lemma fold_max_abs:
  "fold (\<lambda>x m. max \<bar>x\<bar> m) xs (a :: int) = Max (insert a ((\<lambda>x. \<bar>x\<bar>) ` set xs))"
proof (induction xs arbitrary: a)
  case Nil
  then show ?case by simp
next
  case (Cons x xs)
  have "Max (insert (max \<bar>x\<bar> a) ((\<lambda>x. \<bar>x\<bar>) ` set xs)) =
        Max (insert a (insert \<bar>x\<bar> ((\<lambda>x. \<bar>x\<bar>) ` set xs)))"
    by (cases "set xs = {}") (simp_all add: max.commute max.left_commute)
  with Cons.IH [of "max \<bar>x\<bar> a"] show ?case by simp
qed

lemma halo_offset:
  assumes "xs \<noteq> []"
  shows "fold (\<lambda>x m. max \<bar>x\<bar> m) xs (0 :: int) = Max ((\<lambda>x. \<bar>x\<bar>) ` set xs)"
proof -
  from assms have ne: "(\<lambda>x. \<bar>x\<bar>) ` set xs \<noteq> {}" by simp
  have "Max (insert 0 ((\<lambda>x. \<bar>x\<bar>) ` set xs)) = max 0 (Max ((\<lambda>x. \<bar>x :: int\<bar>) ` set xs))"
    using ne by simp
  moreover have "0 \<le> Max ((\<lambda>x. \<bar>x :: int\<bar>) ` set xs)"
  proof -
    from assms obtain y where "y \<in> set xs" by (cases xs) auto
    then have "\<bar>y\<bar> \<le> Max ((\<lambda>x. \<bar>x :: int\<bar>) ` set xs)" by simp
    then show ?thesis by arith
  qed
  ultimately show ?thesis by (simp add: fold_max_abs)
qed

lemma end_name_inject: "end_name d = end_name d' \<Longrightarrow> d = d'"
  by (cases d, cases d') (simp add: end_name_def)

lemma map_of_end_names:
  "map_of (map (\<lambda>(d, v). (end_name d, v)) xs) (end_name dim) = map_of xs dim"
  by (induction xs) (auto dest: end_name_inject)

lemma map_of_graph: "map_of (map (\<lambda>d. (d, f d)) ks) k = (if k \<in> set ks then Some (f k) else None)"
  by (induction ks) auto

lemma observed_nonempty:
  assumes "dim \<in> set (map fst (retrieve_offsets stencils))"
  shows "observed stencils dim \<noteq> []"
proof -
  from assms have "\<exists>offs. (dim, offs) \<in> set (concat stencils) \<and> offs \<noteq> []"
    by (fastforce simp: retrieve_offsets_def comp_def)
  then obtain offs where "(dim, offs) \<in> set (concat stencils)" "offs \<noteq> []"
    by blast
  then show ?thesis
    by (force simp: observed_def)
qed

lemma offsets_lookup:
  assumes eng: "eng = ArgumentEngine stencils ta dps oa declared dle"
    and dim: "dim \<in> set (map fst (retrieve_offsets stencils))"
  shows "map_of (offsets eng) (end_name dim) =
           Some (Max ((\<lambda>x. \<bar>x\<bar>) ` set (observed stencils dim)))"
proof -
  let ?r = "retrieve_offsets stencils"
  have dk: "distinct (map fst ?r)" by (simp add: retrieve_offsets_def comp_def)
  have "map fst (map (\<lambda>(d, v). (end_name d, v)) ?r) = map end_name (map fst ?r)"
    by (simp add: comp_def case_prod_beta)
  moreover have "inj_on end_name (set (map fst ?r))"
    by (rule inj_onI) (rule end_name_inject)
  ultimately have "distinct (map fst (map (\<lambda>(d, v). (end_name d, v)) ?r))"
    using dk by (simp only: distinct_map)
  then have "offsets eng = map (\<lambda>(d, v). (end_name d, v)) ?r"
    by (simp add: eng ArgumentEngine_def Let_def odict_of_distinct)
  then have "map_of (offsets eng) (end_name dim) = map_of ?r dim"
    by (simp add: map_of_end_names)
  also from dim have "\<dots> = Some (fold (\<lambda>x m. max \<bar>x\<bar> m) (observed stencils dim) 0)"
    by (simp add: retrieve_offsets_def map_of_graph comp_def)
  also have "\<dots> = Some (Max ((\<lambda>x. \<bar>x\<bar>) ` set (observed stencils dim)))"
    using observed_nonempty [OF dim] by (simp add: halo_offset)
  finally show ?thesis .
qed


lemma dle_loop_unknown:
  "\<exists>i \<in> set descs. dim_size_get dim_sizes i = None \<Longrightarrow>
   \<exists>j \<in> set descs. dim_size_get dim_sizes j = None \<and>
     dle_loop descs dim_sizes acc at =
       ([unable_message (original_dim j)], Inl (InvalidArgument ''Unknown dimension size''))"
proof (induction descs arbitrary: acc at)
  case Nil
  then show ?case by simp
next
  case (Cons i rest)
  show ?case
  proof (cases "dim_size_get dim_sizes i")
    case None
    then have "dle_loop (i # rest) dim_sizes acc at =
       ([unable_message (original_dim i)], Inl (InvalidArgument ''Unknown dimension size''))"
      by (simp add: dim_size_get_def split: option.splits)
    with None show ?thesis by auto
  next
    case (Some n)
    with Cons.prems have ex: "\<exists>i \<in> set rest. dim_size_get dim_sizes i = None" by auto
    have "\<exists>acc' at'. dle_loop (i # rest) dim_sizes acc at = dle_loop rest dim_sizes acc' at'"
    proof (cases "truthy (dle_value i)")
      case True
      obtain v raised where "try_call (dle_value i) n = (v, raised)"
        by (cases "try_call (dle_value i) n")
      with True Some show ?thesis
        by (auto simp: dim_size_get_def split: option.splits)
    next
      case False
      with Some show ?thesis
        by (auto simp: dim_size_get_def split: option.splits)
    qed
    then obtain acc' at' where
      step: "dle_loop (i # rest) dim_sizes acc at = dle_loop rest dim_sizes acc' at'"
      by blast
    from Cons.IH [OF ex, of acc' at'] step show ?thesis by auto
  qed
qed

lemma map_of_foldl_setitem:
  "map_of (foldl (\<lambda>m (k, v). setitem m k v) acc items) n =
     (case map_of (rev items) n of Some x \<Rightarrow> Some x | None \<Rightarrow> map_of acc n)"
proof (induction items arbitrary: acc)
  case Nil
  then show ?case by simp
next
  case (Cons x items)
  obtain k v where x: "x = (k, v)" by (cases x)
  show ?case
    using Cons.IH [of "setitem acc k v"] x
    by (auto simp: map_of_setitem map_add_def split: option.splits)
qed

lemma map_of_odict_of: "map_of (odict_of items) n = map_of (rev items) n"
  by (simp add: odict_of_def map_of_foldl_setitem split: option.splits)

lemma dim_sizes_of_items:
  "dim_sizes_of ds vals = Inr items \<Longrightarrow>
   map fst items = map dim_name ds \<and>
   (\<forall>n x. (n, x) \<in> set items \<longrightarrow> (\<exists>d \<in> set ds. dim_name d = n \<and> runtime_dim_extent d vals = Inr x))"
proof (induction ds arbitrary: items)
  case Nil
  then show ?case by simp
next
  case (Cons d ds)
  from Cons.prems obtain ext rest where
    e: "runtime_dim_extent d vals = Inr ext" and r: "dim_sizes_of ds vals = Inr rest"
    and i: "items = (dim_name d, ext) # rest"
    by (auto split: sum.splits)
  from Cons.IH [OF r] e i show ?case by auto
qed

lemma dim_size_get_None_iff:
  assumes s: "dim_sizes_of ds vals = Inr items"
  shows "dim_size_get (odict_of items) i = None \<longleftrightarrow>
         (original_dim i \<notin> set ds \<or> runtime_dim_extent (original_dim i) vals = Inr None)"
proof -
  let ?n = "dim_name (original_dim i)"
  from dim_sizes_of_items [OF s] have keys: "map fst items = map dim_name ds"
    and vals: "\<And>n x. (n, x) \<in> set items \<Longrightarrow>
       \<exists>d \<in> set ds. dim_name d = n \<and> runtime_dim_extent d vals = Inr x"
    by blast+
  have same: "d = original_dim i" if "dim_name d = ?n" for d
    using that by (simp add: dimension.expand)
  show ?thesis
  proof (cases "map_of (rev items) ?n")
    case None
    then have "?n \<notin> fst ` set items" by (simp add: map_of_eq_None_iff)
    with keys have "?n \<notin> set (map dim_name ds)" by (metis set_map)
    then have "original_dim i \<notin> set ds" by auto
    with None show ?thesis by (simp add: dim_size_get_def map_of_odict_of)
  next
    case (Some x)
    then have "(?n, x) \<in> set items" by (auto dest: map_of_SomeD)
    from vals [OF this] obtain d where d: "d \<in> set ds" "dim_name d = ?n"
      "runtime_dim_extent d vals = Inr x" by blast
    with same [of d] have "original_dim i \<in> set ds" "runtime_dim_extent (original_dim i) vals = Inr x"
      by simp_all
    with Some show ?thesis by (auto simp: dim_size_get_def map_of_odict_of)
  qed
qed

lemmas tile_defs = tile_function_def tile_fixed_def tiled_engine_def tile_unresolved_def
  unresolved_engine_def


lemma derive_loop_reduce_raises:
  assumes "map_of vals i = Some VNone"
    and "provided i (chain_odict vals dv) (dependencies i) = Inr provided_values"
    and "length provided_values > 1"
  shows "derive_loop (i # rest) dv vals = Inl TypeError"
  using assms by (cases provided_values) (simp_all add: Let_def)

lemma verify_loop_True:
  "verify_loop True nodes =
     (if list_all (\<lambda>i. verified_by_deps i = []) nodes then Inr True else Inl TypeError)"
  by (induction nodes) auto

lemma dimension_takes_maximum:
  "visit (ScalarArgument (size_name (Dimension ''x'')) [Dependency gets_value_from (Node example_x) PNone])
     [(example_u, VArray [10]), (example_w, VArray [14]), (example_x, VNone)]
     (Node example_x) PNone = Inr (VInt 14)"
  by (simp add: example_defs handle_defs size_name_def start_name_def)



























section \<open>Properties\<close>

subsection \<open>Graph construction\<close>

text \<open>
  Claim C9. Visiting a dimension parameter during graph construction emits exactly three
  scalar arguments, named with the size, start and end names of the dimension, in this
  order, and each carries one \<open>gets_value_from\<close> dependency whose target is the visited
  dimension parameter. The loop over the dimension parameters concatenates these
  triples, so it emits three scalar arguments per dimension parameter.
\<close>

theorem visit_DimensionParameter_three_scalars:
  "ArgumentVisitor_visit_DimensionParameter (DimensionParameter d ds) =
     [ScalarArgument (size_name d)
        [Dependency gets_value_from (Node (DimensionParameter d ds)) PNone],
      ScalarArgument (start_name d)
        [Dependency gets_value_from (Node (DimensionParameter d ds)) PNone],
      ScalarArgument (end_name d)
        [Dependency gets_value_from (Node (DimensionParameter d ds)) PNone]]
   \<and> scalar_arguments (map (\<lambda>(d, ds). DimensionParameter d ds) xs) =
       concat (map (\<lambda>(d, ds).
         [ScalarArgument (size_name d)
            [Dependency gets_value_from (Node (DimensionParameter d ds)) PNone],
          ScalarArgument (start_name d)
            [Dependency gets_value_from (Node (DimensionParameter d ds)) PNone],
          ScalarArgument (end_name d)
            [Dependency gets_value_from (Node (DimensionParameter d ds)) PNone]]) xs)
   \<and> length (scalar_arguments dimension_parameters) = 3 * length dimension_parameters"
proof (intro conjI)
  show "ArgumentVisitor_visit_DimensionParameter (DimensionParameter d ds) =
     [ScalarArgument (size_name d)
        [Dependency gets_value_from (Node (DimensionParameter d ds)) PNone],
      ScalarArgument (start_name d)
        [Dependency gets_value_from (Node (DimensionParameter d ds)) PNone],
      ScalarArgument (end_name d)
        [Dependency gets_value_from (Node (DimensionParameter d ds)) PNone]]"
    by (simp add: ArgumentVisitor_visit_DimensionParameter_def Let_def)
next
  show "scalar_arguments (map (\<lambda>(d, ds). DimensionParameter d ds) xs) =
       concat (map (\<lambda>(d, ds).
         [ScalarArgument (size_name d)
            [Dependency gets_value_from (Node (DimensionParameter d ds)) PNone],
          ScalarArgument (start_name d)
            [Dependency gets_value_from (Node (DimensionParameter d ds)) PNone],
          ScalarArgument (end_name d)
            [Dependency gets_value_from (Node (DimensionParameter d ds)) PNone]]) xs)"
    by (induction xs)
      (auto simp: scalar_arguments_def ArgumentVisitor_visit_DimensionParameter_def Let_def)
next
  show "length (scalar_arguments dimension_parameters) = 3 * length dimension_parameters"
    by (induction dimension_parameters)
      (simp_all add: scalar_arguments_def ArgumentVisitor_visit_DimensionParameter_def Let_def)
qed

text \<open>
  Claim C10. In a constructed engine the list of kernel-visible arguments holds at most
  one node per name: of the arguments of the argument mapper with the same name the
  first is kept, and the names are listed in the order of their first occurrences. When
  \<open>handle\<close> returns, the keys of the mapping it returns are these names, in this
  order, and so pairwise distinct.
\<close>

theorem arguments_distinct_names:
  assumes eng: "eng = ArgumentEngine stencils tensor_arguments dimension_parameters
                        other_arguments declared dle_args"
  shows "distinct (map name (arguments eng))
       \<and> map name (arguments eng) =
           rev (remdups (rev (map name (filter is_Argument
             (build_argument_mapper tensor_arguments dimension_parameters other_arguments)))))
       \<and> find (\<lambda>y. name y = n) (arguments eng) =
           find (\<lambda>y. name y = n) (filter is_Argument
             (build_argument_mapper tensor_arguments dimension_parameters other_arguments))
       \<and> (handle eng autotune kw = (log, Inr (res, flag)) \<longrightarrow>
            map fst res = map name (arguments eng) \<and> distinct (map fst res))"
proof -
  let ?all = "filter is_Argument
     (build_argument_mapper tensor_arguments dimension_parameters other_arguments)"
  have a: "arguments eng = filter_ordered ?all name"
    by (simp add: eng ArgumentEngine_def Let_def)
  have d: "distinct (map name (arguments eng))"
    unfolding a by (rule filter_ordered_distinct)
  have o: "map name (arguments eng) = rev (remdups (rev (map name ?all)))"
    unfolding a by (simp add: filter_ordered_def filter_ordered_seen_keys)
  have f: "find (\<lambda>y. name y = n) (arguments eng) = find (\<lambda>y. name y = n) ?all"
    unfolding a by (simp add: filter_ordered_def filter_ordered_seen_find)
  have h: "map fst res = map name (arguments eng) \<and> distinct (map fst res)"
    if "handle eng autotune kw = (log, Inr (res, flag))"
  proof -
    from handle_returns [OF that] obtain kw1 vals where
      v: "derive_values eng kw1 = Inr vals"
      and r: "res = odict_of (map (\<lambda>(k, v). (name k, v)) vals)"
      by blast
    from result_mapping [OF d v] r d show ?thesis by simp
  qed
  from d o f h show ?thesis by blast
qed

theorem arguments_distinct_names_witness:
  "map name (arguments duplicate_engine) = [''u'', ''w'', ''x_size'', ''x_s'', ''x_e'']
   \<and> handle duplicate_engine None [] =
       ([], Inr ([(''u'', VArray [10]), (''w'', VArray [14]), (''x_size'', VInt 14),
                  (''x_s'', VInt 0), (''x_e'', VInt 14)], False))
   \<and> distinct (map name (arguments duplicate_engine))"
proof -
  have h: "handle duplicate_engine None [] =
       ([], Inr ([(''u'', VArray [10]), (''w'', VArray [14]), (''x_size'', VInt 14),
                  (''x_s'', VInt 0), (''x_e'', VInt 14)], False))"
    by (simp add: duplicate_engine_def example_defs engine_defs handle_defs)
  have n: "map name (arguments duplicate_engine) = [''u'', ''w'', ''x_size'', ''x_s'', ''x_e'']"
    by (simp add: duplicate_engine_def example_defs engine_defs)
  from arguments_distinct_names [OF duplicate_engine_def, of "''u''" None "[]" "[]" _ False] h n
  show ?thesis by simp
qed

subsection \<open>Value derivation\<close>

text \<open>
  Claim C7. Asked to resolve a dimension parameter for a consumer whose name is the
  start name of the dimension, the value visitor returns 0. Hence, when the start scalar
  of a dimension is an argument of the engine and the caller gives no start value, the
  mapping that \<open>handle\<close> returns holds 0 under the start name.
\<close>

theorem start_default_zero:
  assumes d: "distinct (map name (arguments eng))"
    and s: "s = ScalarArgument (start_name dim)
                 [Dependency gets_value_from (Node (DimensionParameter dim ds)) PNone]"
    and m: "s \<in> set (arguments eng)"
    and k: "start_name dim \<notin> set (map fst kw)"
    and h: "handle eng autotune kw = (log, Inr (res, flag))"
  shows "(\<forall>consumer kv p. name consumer = start_name dim \<longrightarrow>
            visit consumer kv (Node (DimensionParameter dim ds)) p = Inr (VInt 0))
         \<and> map_of res (start_name dim) = Some (VInt 0)"
proof
  show "\<forall>consumer kv p. name consumer = start_name dim \<longrightarrow>
          visit consumer kv (Node (DimensionParameter dim ds)) p = Inr (VInt 0)"
    by simp
next
  from handle_returns [OF h] obtain kw1 vals where
    a: "offset_adjust (offsets eng) kw = Inr kw1"
    and v: "derive_values eng kw1 = Inr vals"
    and r: "res = odict_of (map (\<lambda>(k, v). (name k, v)) vals)"
    by blast
  from a have "map fst kw1 = map fst kw" by (rule offset_adjust_keys)
  then have "set (map fst kw1) = set (map fst kw)" by simp
  with k have "start_name dim \<notin> fst ` set kw1" by simp
  then have "map_of kw1 (start_name dim) = None"
    by (simp add: map_of_eq_None_iff)
  then have seed: "seeded kw1 s = VNone" by (simp add: seeded_def s)
  from derive_values_passes [OF d v] obtain dv vals1 where
    l: "derive_loop (arguments eng) dv (map (\<lambda>i. (i, seeded kw1 i)) (arguments eng)) = Inr vals1"
    and st: "settle vals1 vals1 = Inr vals" and k1: "map fst vals1 = arguments eng"
    by blast
  from map_of_seed [OF m, of kw1] seed
  have "map_of (map (\<lambda>i. (i, seeded kw1 i)) (arguments eng)) s = Some VNone" by simp
  with derive_loop_start [OF s l m] have "map_of vals1 s = Some (VInt 0)" by simp
  moreover from d k1 have "distinct (map fst vals1)" by (simp add: distinct_names_nodes)
  ultimately have "map_of vals s = Some (VInt 0)"
    using st settle_keeps_value [of vals1 vals s "VInt 0"] by simp
  from handle_result_lookup [OF d v this] r show "map_of res (start_name dim) = Some (VInt 0)"
    by (simp add: s)
qed

theorem start_default_zero_witness:
  "distinct (map name (arguments example_engine))
   \<and> handle example_engine (Some True) [] =
       ([], Inr ([(''u'', VArray [10]), (''w'', VArray [14]), (''x_size'', VInt 14),
                  (''x_s'', VInt 0), (''x_e'', VInt 14)], True))
   \<and> map_of [(''u'', VArray [10]), (''w'', VArray [14]), (''x_size'', VInt 14),
              (''x_s'', VInt 0), (''x_e'', VInt 14)] (start_name (Dimension ''x'')) = Some (VInt 0)"
proof -
  let ?s = "ScalarArgument (start_name (Dimension ''x''))
              [Dependency gets_value_from (Node example_x) PNone]"
  have d: "distinct (map name (arguments example_engine))"
    by (simp add: example_defs engine_defs)
  have s: "?s = ScalarArgument (start_name (Dimension ''x''))
              [Dependency gets_value_from (Node (DimensionParameter (Dimension ''x'')
                 [Dependency gets_value_from (Node example_u) (PIndex 0),
                  Dependency gets_value_from (Node example_w) (PIndex 0)])) PNone]"
    by (simp add: example_x_def)
  have m: "?s \<in> set (arguments example_engine)"
    by (simp add: example_defs engine_defs)
  have k: "start_name (Dimension ''x'') \<notin> set (map fst ([] :: kwargs))" by simp
  have h: "handle example_engine (Some True) [] =
       ([], Inr ([(''u'', VArray [10]), (''w'', VArray [14]), (''x_size'', VInt 14),
                  (''x_s'', VInt 0), (''x_e'', VInt 14)], True))"
    by (simp add: example_defs engine_defs handle_defs)
  from start_default_zero [OF d s m k h] d h show ?thesis by simp
qed

text \<open>
  Claim C6. For a dimension with an entry in the offsets computed from the stencils, an
  integer supplied under the end name of the dimension is replaced by that integer plus
  the offset of the dimension, the maximum absolute relative offset of the stencils; the
  other keys are unchanged, and the argument returned by \<open>handle\<close> under the end name
  is the user value plus the offset, added once. With the offsets -1, 0 and 2 and the
  user value 5 the result is 7.
\<close>

theorem halo_offset_added_once:
  assumes eng: "eng = ArgumentEngine stencils tensor_arguments dimension_parameters
                        other_arguments declared dle_args"
    and dim: "dim \<in> set (map fst (retrieve_offsets stencils))"
    and arg: "end_name dim \<in> set (map name (arguments eng))"
    and user: "map_of kw (end_name dim) = Some (LInt E)"
    and h: "handle eng autotune kw = (log, Inr (res, flag))"
  shows "(\<exists>kw1. offset_adjust (offsets eng) kw = Inr kw1 \<and> map fst kw1 = map fst kw \<and>
            map_of kw1 (end_name dim) =
              Some (LInt (E + Max ((\<lambda>x. \<bar>x\<bar>) ` set (observed stencils dim)))))
         \<and> map_of res (end_name dim) =
              Some (VInt (E + Max ((\<lambda>x. \<bar>x\<bar>) ` set (observed stencils dim))))"
proof -
  let ?off = "Max ((\<lambda>x. \<bar>x\<bar>) ` set (observed stencils dim))"
  have d: "distinct (map name (arguments eng))"
    by (simp add: eng ArgumentEngine_def Let_def filter_ordered_distinct)
  from handle_returns [OF h] obtain kw1 vals where
    a: "offset_adjust (offsets eng) kw = Inr kw1"
    and v: "derive_values eng kw1 = Inr vals"
    and r: "res = odict_of (map (\<lambda>(k, v). (name k, v)) vals)"
    by blast
  from offset_adjust_int [OF a user] offsets_lookup [OF eng dim]
  have k1: "map_of kw1 (end_name dim) = Some (LInt (E + ?off))" by simp
  from arg obtain i where i: "i \<in> set (arguments eng)" and n: "name i = end_name dim"
    by auto
  from k1 n have seed: "seeded kw1 i = VInt (E + ?off)" by (simp add: seeded_def)
  with derive_values_keeps [OF d v i] have "map_of vals i = Some (VInt (E + ?off))" by simp
  from handle_result_lookup [OF d v this] r n
  have "map_of res (end_name dim) = Some (VInt (E + ?off))" by simp
  with a k1 offset_adjust_keys [OF a] show ?thesis by blast
qed

theorem halo_offset_added_once_witness:
  "map_of [(''x_e'', LInt 5)] (end_name (Dimension ''x'')) = Some (LInt 5)
   \<and> handle example_engine (Some True) [(''x_e'', LInt 5)] =
       ([], Inr ([(''u'', VArray [10]), (''w'', VArray [14]), (''x_size'', VInt 14),
                  (''x_s'', VInt 0), (''x_e'', VInt 7)], True))
   \<and> Max ((\<lambda>x. \<bar>x\<bar>) ` set (observed [[(Dimension ''x'', [-1, 0, 2])]] (Dimension ''x''))) = (2 :: int)
   \<and> map_of [(''u'', VArray [10]), (''w'', VArray [14]), (''x_size'', VInt 14),
              (''x_s'', VInt 0), (''x_e'', VInt 7)] (end_name (Dimension ''x'')) = Some (VInt (5 + 2))"
proof -
  have dim: "Dimension ''x'' \<in> set (map fst (retrieve_offsets [[(Dimension ''x'', [-1, 0, 2])]]))"
    by (simp add: retrieve_offsets_def)
  have arg: "end_name (Dimension ''x'') \<in> set (map name (arguments example_engine))"
    by (simp add: example_defs engine_defs)
  have user: "map_of [(''x_e'', LInt 5)] (end_name (Dimension ''x'')) = Some (LInt 5)"
    by (simp add: end_name_def)
  have h: "handle example_engine (Some True) [(''x_e'', LInt 5)] =
       ([], Inr ([(''u'', VArray [10]), (''w'', VArray [14]), (''x_size'', VInt 14),
                  (''x_s'', VInt 0), (''x_e'', VInt 7)], True))"
    by (simp add: example_defs engine_defs handle_defs)
  have m: "Max ((\<lambda>x. \<bar>x\<bar>) ` set (observed [[(Dimension ''x'', [-1, 0, 2])]] (Dimension ''x''))) = (2 :: int)"
    by (simp add: observed_def)
  from halo_offset_added_once [OF example_engine_def dim arg user h] user h m
  show ?thesis by simp
qed

subsection \<open>The autotune flag and the tiling descriptors\<close>



text \<open>
  Claim C8. If, after the values are derived, the extent (end minus start) of the
  blocked dimension of some tiling descriptor is not determined, because the dimension
  is not declared or because \<open>runtime_dim_extent\<close> gives \<open>None\<close> on the derived values,
  then \<open>handle\<close> fails with the invalid-argument error \<open>Unknown dimension size\<close>, and
  the message logged with it names the dimension of the first such descriptor.
\<close>

theorem unknown_dimension_size:
  assumes a: "offset_adjust (offsets eng) kw = Inr kw1"
    and v: "derive_values eng kw1 = Inr vals"
    and s: "dim_sizes_of (dimensions eng) vals = Inr items"
    and i: "i \<in> set (dle_arguments eng)"
    and u: "original_dim i \<notin> set (dimensions eng) \<or>
            runtime_dim_extent (original_dim i) vals = Inr None"
  shows "\<exists>j \<in> set (dle_arguments eng).
           (original_dim j \<notin> set (dimensions eng) \<or>
            runtime_dim_extent (original_dim j) vals = Inr None) \<and>
           handle eng autotune kw =
             ([unable_message (original_dim j)], Inl (InvalidArgument ''Unknown dimension size''))"
proof -
  from u have "dim_size_get (odict_of items) i = None"
    by (simp add: dim_size_get_None_iff [OF s])
  with i have "\<exists>i \<in> set (dle_arguments eng). dim_size_get (odict_of items) i = None" by blast
  from dle_loop_unknown [OF this, of "[]" True] obtain j where
    j: "j \<in> set (dle_arguments eng)" "dim_size_get (odict_of items) j = None"
    and l: "dle_loop (dle_arguments eng) (odict_of items) [] True =
       ([unable_message (original_dim j)], Inl (InvalidArgument ''Unknown dimension size''))"
    by blast
  from a v s l have "handle eng autotune kw =
       ([unable_message (original_dim j)], Inl (InvalidArgument ''Unknown dimension size''))"
    by (simp add: handle_def extract_children_of_composites_def dle_arguments_of_def)
  with j dim_size_get_None_iff [OF s, of j] show ?thesis by blast
qed

theorem unknown_dimension_size_witness:
  "handle unresolved_engine (Some True) [] =
     ([unable_message (Dimension ''y'')], Inl (InvalidArgument ''Unknown dimension size''))
   \<and> tile_unresolved \<in> set (dle_arguments unresolved_engine)
   \<and> (case derive_values unresolved_engine [] of
         Inl e \<Rightarrow> False
       | Inr vals \<Rightarrow> runtime_dim_extent (original_dim tile_unresolved) vals = Inr None)"
proof -
  have a: "offset_adjust (offsets unresolved_engine) [] = Inr []" by simp
  have "\<exists>vals. derive_values unresolved_engine [] = Inr vals \<and>
          dim_sizes_of (dimensions unresolved_engine) vals = Inr [(''y'', None)] \<and>
          runtime_dim_extent (original_dim tile_unresolved) vals = Inr None"
    by (simp add: tile_defs engine_defs handle_defs)
  then obtain vals where v: "derive_values unresolved_engine [] = Inr vals"
    and s: "dim_sizes_of (dimensions unresolved_engine) vals = Inr [(''y'', None)]"
    and u: "runtime_dim_extent (original_dim tile_unresolved) vals = Inr None"
    by blast
  have i: "tile_unresolved \<in> set (dle_arguments unresolved_engine)"
    by (simp add: tile_defs engine_defs)
  have only: "set (dle_arguments unresolved_engine) = {tile_unresolved}"
    by (simp add: unresolved_engine_def ArgumentEngine_def Let_def)
  have y: "original_dim tile_unresolved = Dimension ''y''" by (simp add: tile_unresolved_def)
  from unknown_dimension_size [OF a v s i disjI2 [OF u], of "Some True"] only y
  have "handle unresolved_engine (Some True) [] =
     ([unable_message (Dimension ''y'')], Inl (InvalidArgument ''Unknown dimension size''))"
    by auto
  with i v u show ?thesis by simp
qed

subsection \<open>Where the code departs from the claims\<close>



subsection \<open>Unknown keywords\<close>




subsection \<open>Deferred values\<close>




end
